theory Spec2Isabelle
  imports Main
begin

section \<open>The nested task tree of \<open>note.py\<close>\<close>

text \<open>
  The application keeps its tasks in \<open>self.tasks_tree\<close>, a Python list of dicts. Every
  dict is indexed unconditionally with \<open>task['text']\<close>, while \<open>'done'\<close> and
  \<open>'subtasks'\<close> are read with \<open>.get\<close> and a default, or tested with \<open>in\<close>. A task is
  therefore a dict that has the key \<open>'text'\<close> and may or may not have the keys
  \<open>'done'\<close> and \<open>'subtasks'\<close>; an absent key is \<open>None\<close>.

  A Python \<open>str\<close> is modelled as a \<open>string\<close>, one \<open>char\<close> per code point below 256.
  A path is a Python \<open>List[int]\<close>, so its indices are unbounded integers, negative
  ones included.
\<close>

datatype task =
  Task (task_text: string) (task_done: "bool option") (task_subtasks: "task list option")

datatype py_error =
    IndexError | KeyError | AttributeError
  | JSONDecodeError | FileNotFoundError | PermissionError | UnicodeDecodeError
  | RecursionError

subsection \<open>Python primitives\<close>

text \<open>\<open>xs[index]\<close>: a negative index counts from the end; out of range raises
  \<open>IndexError\<close>.\<close>

definition getitem :: "'a list \<Rightarrow> int \<Rightarrow> py_error + 'a" where
  "getitem xs index =
     (let n = int (length xs); j = (if index < 0 then index + n else index)
      in if 0 \<le> j \<and> j < n then Inr (xs ! nat j) else Inl IndexError)"

text \<open>\<open>xs.pop(index)\<close>, reduced to the list that remains.\<close>

definition pop :: "'a list \<Rightarrow> int \<Rightarrow> py_error + 'a list" where
  "pop xs index =
     (let n = int (length xs); j = (if index < 0 then index + n else index)
      in if 0 \<le> j \<and> j < n then Inr (take (nat j) xs @ drop (Suc (nat j)) xs)
         else Inl IndexError)"

text \<open>\<open>task.get('subtasks', [])\<close>, \<open>task.get('done', False)\<close> and
  \<open>task['subtasks']\<close>, which raises \<open>KeyError\<close> when the key is absent.\<close>

definition get_subtasks :: "task \<Rightarrow> task list" where
  "get_subtasks t = (case task_subtasks t of None \<Rightarrow> [] | Some s \<Rightarrow> s)"

definition get_done :: "task \<Rightarrow> bool" where
  "get_done t = (case task_done t of None \<Rightarrow> False | Some b \<Rightarrow> b)"

definition subscript_subtasks :: "task \<Rightarrow> py_error + task list" where
  "subscript_subtasks t = (case task_subtasks t of None \<Rightarrow> Inl KeyError | Some s \<Rightarrow> Inr s)"

text \<open>\<open>str.isspace\<close> on the code points below 256, and \<open>str.strip()\<close>.\<close>

definition isspace :: "char \<Rightarrow> bool" where
  "isspace c =
     (let n = (of_char c :: nat)
      in (9 \<le> n \<and> n \<le> 13) \<or> (28 \<le> n \<and> n \<le> 32) \<or> n = 133 \<or> n = 160)"

definition strip :: "string \<Rightarrow> string" where
  "strip s = rev (dropWhile isspace (rev (dropWhile isspace s)))"

subsection \<open>Addressing by path\<close>

text \<open>
  \<open>get_task_from_path\<close>: the loop runs over the path; at the last index it returns
  \<open>current[index]\<close>, before it descends into \<open>current[index].get('subtasks', [])\<close>.
  The handler turns \<open>IndexError\<close>, \<open>KeyError\<close> and \<open>AttributeError\<close> into the result
  \<open>None\<close>; any other exception leaves the function.
\<close>

fun get_task_loop :: "task list \<Rightarrow> int list \<Rightarrow> py_error + task option" where
  "get_task_loop current [] = Inr None"
| "get_task_loop current (index # rest) =
     (case getitem current index of
        Inl e \<Rightarrow>
          if e = IndexError \<or> e = KeyError \<or> e = AttributeError then Inr None else Inl e
      | Inr t \<Rightarrow>
          if rest = [] then Inr (Some t) else get_task_loop (get_subtasks t) rest)"

definition get_task_from_path :: "task list \<Rightarrow> int list \<Rightarrow> py_error + task option" where
  "get_task_from_path tasks_tree path =
     (if path = [] then Inr None else get_task_loop tasks_tree path)"

text \<open>
  \<open>get_parent_list_from_path\<close>: the list that holds the addressed task. The loop runs
  over \<open>path[:-1]\<close> with \<open>current = current[index]['subtasks']\<close>; the handler covers
  \<open>IndexError\<close> and \<open>KeyError\<close>.
\<close>

fun parent_list_loop :: "task list \<Rightarrow> int list \<Rightarrow> py_error + task list option" where
  "parent_list_loop current [] = Inr (Some current)"
| "parent_list_loop current (index # rest) =
     (case (case getitem current index of Inl e \<Rightarrow> Inl e | Inr t \<Rightarrow> subscript_subtasks t) of
        Inl e \<Rightarrow> if e = IndexError \<or> e = KeyError then Inr None else Inl e
      | Inr s \<Rightarrow> parent_list_loop s rest)"

definition get_parent_list_from_path ::
    "task list \<Rightarrow> int list \<Rightarrow> py_error + task list option" where
  "get_parent_list_from_path tasks_tree path =
     (if path = [] then Inr None
      else if length path = 1 then Inr (Some tasks_tree)
      else parent_list_loop tasks_tree (butlast path))"

subsection \<open>Mutation in place\<close>

text \<open>
  Python hands out a reference to the dict or list found inside the tree and the
  caller mutates that object. The tree holds no shared objects (it comes from
  \<open>json.load\<close> and from freshly built dicts), so the effect of the mutation is the tree
  with the object at that position replaced. \<open>put_task\<close> walks like
  \<open>get_task_from_path\<close> and \<open>put_parent_list\<close> like \<open>get_parent_list_from_path\<close>; both
  leave the tree alone where the walk fails.
\<close>

definition setitem :: "'a list \<Rightarrow> int \<Rightarrow> 'a \<Rightarrow> 'a list" where
  "setitem xs index v =
     (let n = int (length xs); j = (if index < 0 then index + n else index)
      in if 0 \<le> j \<and> j < n then xs[nat j := v] else xs)"

fun put_task :: "task list \<Rightarrow> int list \<Rightarrow> task \<Rightarrow> task list" where
  "put_task current [] new = current"
| "put_task current (index # rest) new =
     (case getitem current index of
        Inl e \<Rightarrow> current
      | Inr t \<Rightarrow>
          if rest = [] then setitem current index new
          else (case task_subtasks t of
                  None \<Rightarrow> current
                | Some s \<Rightarrow>
                    setitem current index
                      (Task (task_text t) (task_done t) (Some (put_task s rest new)))))"

fun put_parent_list :: "task list \<Rightarrow> int list \<Rightarrow> task list \<Rightarrow> task list" where
  "put_parent_list current [] new = new"
| "put_parent_list current (index # rest) new =
     (case getitem current index of
        Inl e \<Rightarrow> current
      | Inr t \<Rightarrow>
          (case task_subtasks t of
             None \<Rightarrow> current
           | Some s \<Rightarrow>
               setitem current index
                 (Task (task_text t) (task_done t) (Some (put_parent_list s rest new)))))"

subsection \<open>The operations\<close>

text \<open>
  Every operation takes the tree and returns the tree it leaves in
  \<open>self.tasks_tree\<close>, or the exception that escapes. \<open>save_tasks\<close> and
  \<open>refresh_display\<close>, called after a mutation, do not assign to the tree.
\<close>

definition add_task_to_path ::
    "task list \<Rightarrow> string \<Rightarrow> int list option \<Rightarrow> py_error + task list" where
  "add_task_to_path tasks_tree text path =
     (if strip text = [] then Inr tasks_tree
      else
        let new_task = Task (strip text) (Some False) (Some [])
        in case path of
             None \<Rightarrow> Inr (tasks_tree @ [new_task])
           | Some p \<Rightarrow>
               (case get_task_from_path tasks_tree p of
                  Inl e \<Rightarrow> Inl e
                | Inr None \<Rightarrow> Inr tasks_tree
                | Inr (Some parent_task) \<Rightarrow>
                    Inr (put_task tasks_tree p
                           (Task (task_text parent_task) (task_done parent_task)
                              (Some (get_subtasks parent_task @ [new_task]))))))"

definition toggle_task :: "task list \<Rightarrow> int list \<Rightarrow> py_error + task list" where
  "toggle_task tasks_tree path =
     (case get_task_from_path tasks_tree path of
        Inl e \<Rightarrow> Inl e
      | Inr None \<Rightarrow> Inr tasks_tree
      | Inr (Some task) \<Rightarrow>
          Inr (put_task tasks_tree path
                 (Task (task_text task) (Some (\<not> get_done task)) (task_subtasks task))))"

text \<open>\<open>edit_task\<close> with the text the user confirms in the dialog (\<open>save_edit\<close>);
  cancelling the dialog changes nothing.\<close>

definition edit_task :: "task list \<Rightarrow> int list \<Rightarrow> string \<Rightarrow> py_error + task list" where
  "edit_task tasks_tree path entered =
     (case get_task_from_path tasks_tree path of
        Inl e \<Rightarrow> Inl e
      | Inr None \<Rightarrow> Inr tasks_tree
      | Inr (Some task) \<Rightarrow>
          let new_text = strip entered
          in if new_text \<noteq> []
             then Inr (put_task tasks_tree path
                         (Task new_text (task_done task) (task_subtasks task)))
             else Inr tasks_tree)"

text \<open>\<open>delete_task\<close>; \<open>result\<close> is the answer of the confirmation dialog.\<close>

definition delete_task :: "task list \<Rightarrow> int list \<Rightarrow> bool \<Rightarrow> py_error + task list" where
  "delete_task tasks_tree path result =
     (case get_task_from_path tasks_tree path of
        Inl e \<Rightarrow> Inl e
      | Inr None \<Rightarrow> Inr tasks_tree
      | Inr (Some task) \<Rightarrow>
          if result then
            (case get_parent_list_from_path tasks_tree path of
               Inl e \<Rightarrow> Inl e
             | Inr parent_list \<Rightarrow>
                 (case getitem path (- 1) of
                    Inl e \<Rightarrow> Inl e
                  | Inr task_index \<Rightarrow>
                      (case parent_list of
                         None \<Rightarrow> Inr tasks_tree
                       | Some pl \<Rightarrow>
                           if 0 \<le> task_index \<and> task_index < int (length pl) then
                             (case pop pl task_index of
                                Inl e \<Rightarrow> Inl e
                              | Inr pl' \<Rightarrow>
                                  Inr (put_parent_list tasks_tree (butlast path) pl'))
                           else Inr tasks_tree)))
          else Inr tasks_tree)"

subsection \<open>Rendering\<close>

text \<open>
  \<open>refresh_display\<close> and \<open>display_task_recursive\<close> build one widget per task by
  \<open>create_task_widget(task, path, depth)\<close>; the model returns the arguments of these
  calls in the order they are made. \<open>display_each\<close> is the loop
  \<open>for i, subtask in enumerate(...)\<close> from index \<open>i\<close> on.
\<close>

type_synonym widget = "task \<times> int list \<times> nat"

fun display_task_recursive :: "task \<Rightarrow> int list \<Rightarrow> nat \<Rightarrow> widget list"
  and display_each :: "task list \<Rightarrow> int \<Rightarrow> int list \<Rightarrow> nat \<Rightarrow> widget list" where
  "display_task_recursive (Task tx dn sub) path depth =
     (Task tx dn sub, path, depth) #
     (case sub of
        None \<Rightarrow> []
      | Some s \<Rightarrow> if s = [] then [] else display_each s 0 path (depth + 1))"
| "display_each [] i path depth = []"
| "display_each (subtask # rest) i path depth =
     display_task_recursive subtask (path @ [i]) depth @ display_each rest (i + 1) path depth"

definition refresh_display :: "task list \<Rightarrow> widget list" where
  "refresh_display tasks_tree =
     (if tasks_tree = [] then [] else display_each tasks_tree 0 [] 0)"

subsection \<open>Loading\<close>

text \<open>
  \<open>load_tasks\<close> asks the operating system and the JSON library four questions; the
  backing store is the record of their answers: \<open>os.path.exists\<close>, the exception
  \<open>open\<close> raises (if any), \<open>os.path.getsize\<close>, and the outcome of \<open>json.load\<close>, for
  a document that holds an array. \<open>load_tasks\<close> assigns the decoded array without
  looking at its elements, so their type is a parameter: \<open>task\<close> for a stored task
  tree, anything else for an array that holds no tasks.
\<close>

record 'a backing_store =
  path_exists :: bool
  open_raises :: "py_error option"
  getsize :: nat
  json_load :: "py_error + 'a list"

definition load_tasks :: "'a backing_store \<Rightarrow> py_error + 'a list" where
  "load_tasks store =
     (if path_exists store then
        (case (case open_raises store of
                 Some e \<Rightarrow> Inl e
               | None \<Rightarrow> if getsize store > 0 then json_load store else Inr []) of
           Inl e \<Rightarrow> if e = JSONDecodeError \<or> e = FileNotFoundError then Inr [] else Inl e
         | Inr tree \<Rightarrow> Inr tree)
      else Inr [])"

subsection \<open>Tasks that carry their subtasks\<close>

text \<open>Every task of the tree, at any depth, has the key \<open>'subtasks'\<close>.\<close>

fun has_subtasks :: "task \<Rightarrow> bool"
  and all_have_subtasks :: "task list \<Rightarrow> bool" where
  "has_subtasks (Task tx dn sub) =
     (case sub of None \<Rightarrow> False | Some s \<Rightarrow> all_have_subtasks s)"
| "all_have_subtasks [] = True"
| "all_have_subtasks (t # ts) = (has_subtasks t \<and> all_have_subtasks ts)"

section \<open>Auxiliary facts\<close>

subsection \<open>Resolution returns\<close>

lemma getitem_raises_IndexError: "getitem xs i = Inl e \<Longrightarrow> e = IndexError"
  by (auto simp: getitem_def Let_def split: if_splits)

lemma getitem_Nil: "getitem [] i = Inl IndexError"
  by (simp add: getitem_def)

lemma get_task_loop_returns: "\<exists>r. get_task_loop current path = Inr r"
proof (induction path arbitrary: current)
  case Nil
  show ?case by simp
next
  case (Cons index rest)
  show ?case
  proof (cases "getitem current index")
    case (Inl e)
    then have "e = IndexError" by (rule getitem_raises_IndexError)
    with Inl show ?thesis by simp
  next
    case (Inr t)
    with Cons.IH [of "get_subtasks t"] show ?thesis by auto
  qed
qed

lemma get_task_from_path_returns: "\<exists>r. get_task_from_path tree path = Inr r"
  using get_task_loop_returns by (simp add: get_task_from_path_def)

lemma get_task_loop_Nil: "get_task_loop [] path = Inr None"
  by (cases path) (simp_all add: getitem_Nil)

lemma parent_list_loop_returns: "\<exists>r. parent_list_loop current path = Inr r"
proof (induction path arbitrary: current)
  case Nil
  show ?case by simp
next
  case (Cons index rest)
  show ?case
  proof (cases "getitem current index")
    case (Inl e)
    then have "e = IndexError" by (rule getitem_raises_IndexError)
    with Inl show ?thesis by simp
  next
    case (Inr t)
    with Cons.IH show ?thesis
      by (cases "task_subtasks t") (simp_all add: subscript_subtasks_def)
  qed
qed

text \<open>The addressed task is the element of its parent list at the last index.\<close>

lemma get_task_loop_via_parent_list:
  "path \<noteq> [] \<Longrightarrow>
   get_task_loop current path =
     (case parent_list_loop current (butlast path) of
        Inl e \<Rightarrow> Inl e
      | Inr None \<Rightarrow> Inr None
      | Inr (Some siblings) \<Rightarrow>
          (case getitem siblings (last path) of Inl e \<Rightarrow> Inr None | Inr t \<Rightarrow> Inr (Some t)))"
proof (induction path arbitrary: current)
  case Nil
  then show ?case by simp
next
  case (Cons index rest)
  show ?case
  proof (cases "rest = []")
    case True
    then show ?thesis
      by (auto split: sum.splits dest: getitem_raises_IndexError)
  next
    case False
    show ?thesis
    proof (cases "getitem current index")
      case (Inl e)
      then have "e = IndexError" by (rule getitem_raises_IndexError)
      with Inl False show ?thesis by simp
    next
      case (Inr t)
      show ?thesis
      proof (cases "task_subtasks t")
        case None
        with Inr False show ?thesis
          by (simp add: get_subtasks_def subscript_subtasks_def get_task_loop_Nil)
      next
        case (Some s)
        with Inr False Cons.IH [OF False, of s] show ?thesis
          by (simp add: get_subtasks_def subscript_subtasks_def
                cong: sum.case_cong option.case_cong)
      qed
    qed
  qed
qed

lemma get_task_via_parent_list:
  "path \<noteq> [] \<Longrightarrow>
   get_task_from_path tree path =
     (case get_parent_list_from_path tree path of
        Inl e \<Rightarrow> Inl e
      | Inr None \<Rightarrow> Inr None
      | Inr (Some siblings) \<Rightarrow>
          (case getitem siblings (last path) of Inl e \<Rightarrow> Inr None | Inr t \<Rightarrow> Inr (Some t)))"
proof (cases "length path = 1")
  case True
  then obtain i where "path = [i]" by (cases path) auto
  then show ?thesis
    by (auto simp: get_task_from_path_def get_parent_list_from_path_def
          split: sum.splits dest: getitem_raises_IndexError)
next
  case False
  assume "path \<noteq> []"
  with False show ?thesis
    by (simp add: get_task_from_path_def get_parent_list_from_path_def
          get_task_loop_via_parent_list)
qed

lemma getitem_last: "xs \<noteq> [] \<Longrightarrow> getitem xs (- 1) = Inr (last xs)"
  by (auto simp: getitem_def Let_def last_conv_nth nat_diff_distrib' )

lemma get_parent_list_from_path_returns: "\<exists>r. get_parent_list_from_path tree path = Inr r"
  using parent_list_loop_returns by (simp add: get_parent_list_from_path_def)

subsection \<open>Reading back a replaced task\<close>

lemma getitem_setitem_same: "getitem xs i = Inr t \<Longrightarrow> getitem (setitem xs i v) i = Inr v"
  by (auto simp: getitem_def setitem_def Let_def split: if_splits)

lemma setitem_last: "xs \<noteq> [] \<Longrightarrow> setitem xs (- 1) v = butlast xs @ [v]"
proof -
  assume ne: "xs \<noteq> []"
  then have "xs = butlast xs @ [last xs]" by simp
  then have "xs[length xs - 1 := v] = butlast xs @ [v]"
    by (metis length_butlast list_update_length)
  moreover from ne have "nat (- 1 + int (length xs)) = length xs - 1" by simp
  ultimately show ?thesis using ne by (simp add: setitem_def Let_def)
qed

lemma get_task_loop_put_task:
  "get_task_loop current path = Inr (Some t) \<Longrightarrow>
   get_task_loop (put_task current path new) path = Inr (Some new)"
proof (induction path arbitrary: current)
  case Nil
  then show ?case by simp
next
  case (Cons index rest)
  from Cons.prems obtain t0 where t0: "getitem current index = Inr t0"
    by (cases "getitem current index") (auto split: if_splits)
  show ?case
  proof (cases "rest = []")
    case True
    with t0 show ?thesis by (simp add: getitem_setitem_same)
  next
    case False
    with Cons.prems t0 have sub: "get_task_loop (get_subtasks t0) rest = Inr (Some t)"
      by simp
    then obtain s where s: "task_subtasks t0 = Some s"
      by (cases "task_subtasks t0") (auto simp: get_subtasks_def get_task_loop_Nil)
    with sub have "get_task_loop (put_task s rest new) rest = Inr (Some new)"
      using Cons.IH [of s] by (simp add: get_subtasks_def)
    with t0 s False show ?thesis
      by (simp add: getitem_setitem_same get_subtasks_def)
  qed
qed

lemma get_task_from_path_put_task:
  "get_task_from_path tree path = Inr (Some t) \<Longrightarrow>
   get_task_from_path (put_task tree path new) path = Inr (Some new)"
  by (auto simp: get_task_from_path_def get_task_loop_put_task split: if_splits)

subsection \<open>The key \<open>'subtasks'\<close> under replacement\<close>

lemma all_have_subtasks_iff: "all_have_subtasks ts \<longleftrightarrow> (\<forall>t \<in> set ts. has_subtasks t)"
  by (induction ts) auto

lemma has_subtasks_iff:
  "has_subtasks t \<longleftrightarrow> (\<exists>s. task_subtasks t = Some s \<and> all_have_subtasks s)"
  by (cases t) (auto split: option.splits)

lemma getitem_in_set: "getitem xs i = Inr t \<Longrightarrow> t \<in> set xs"
  by (auto simp: getitem_def Let_def split: if_splits)

lemma set_setitem_subset: "set (setitem xs i v) \<subseteq> insert v (set xs)"
  using set_update_subset_insert [of xs _ v] by (auto simp: setitem_def Let_def)

lemma all_have_subtasks_setitem:
  "all_have_subtasks xs \<Longrightarrow> has_subtasks v \<Longrightarrow> all_have_subtasks (setitem xs i v)"
  using set_setitem_subset [of xs i v] by (auto simp: all_have_subtasks_iff)

lemma all_have_subtasks_pop:
  "all_have_subtasks xs \<Longrightarrow> pop xs i = Inr ys \<Longrightarrow> all_have_subtasks ys"
proof -
  assume inv: "all_have_subtasks xs" and popped: "pop xs i = Inr ys"
  from popped obtain n where "ys = take n xs @ drop (Suc n) xs"
    by (auto simp: pop_def Let_def split: if_splits)
  then have "set ys \<subseteq> set xs"
    using set_take_subset [of n xs] set_drop_subset [of "Suc n" xs] by auto
  with inv show ?thesis by (auto simp: all_have_subtasks_iff)
qed

lemma has_subtasks_get_task_loop:
  "all_have_subtasks current \<Longrightarrow> get_task_loop current path = Inr (Some t) \<Longrightarrow> has_subtasks t"
proof (induction path arbitrary: current)
  case Nil
  then show ?case by simp
next
  case (Cons index rest)
  from Cons.prems(2) obtain t0 where t0: "getitem current index = Inr t0"
    by (cases "getitem current index") (auto split: if_splits)
  with Cons.prems(1) have h0: "has_subtasks t0"
    by (auto simp: all_have_subtasks_iff dest: getitem_in_set)
  show ?case
  proof (cases "rest = []")
    case True
    with Cons.prems(2) t0 h0 show ?thesis by simp
  next
    case False
    from h0 have "all_have_subtasks (get_subtasks t0)"
      by (auto simp: has_subtasks_iff get_subtasks_def)
    moreover from Cons.prems(2) t0 False
    have "get_task_loop (get_subtasks t0) rest = Inr (Some t)" by simp
    ultimately show ?thesis by (rule Cons.IH)
  qed
qed

lemma all_have_subtasks_put_task:
  "all_have_subtasks current \<Longrightarrow> has_subtasks new \<Longrightarrow>
   all_have_subtasks (put_task current path new)"
proof (induction path arbitrary: current)
  case Nil
  then show ?case by simp
next
  case (Cons index rest)
  show ?case
  proof (cases "getitem current index")
    case (Inl e)
    with Cons.prems show ?thesis by simp
  next
    case (Inr t0)
    with Cons.prems(1) have "has_subtasks t0"
      by (auto simp: all_have_subtasks_iff dest: getitem_in_set)
    then obtain s where s: "task_subtasks t0 = Some s" "all_have_subtasks s"
      by (auto simp: has_subtasks_iff)
    from s(2) Cons.prems(2) have "all_have_subtasks (put_task s rest new)"
      by (rule Cons.IH)
    then have "has_subtasks (Task (task_text t0) (task_done t0) (Some (put_task s rest new)))"
      by simp
    with Inr s Cons.prems show ?thesis
      by (simp add: all_have_subtasks_setitem)
  qed
qed

lemma all_have_subtasks_put_parent_list:
  "all_have_subtasks current \<Longrightarrow> all_have_subtasks new \<Longrightarrow>
   all_have_subtasks (put_parent_list current path new)"
proof (induction path arbitrary: current)
  case Nil
  then show ?case by simp
next
  case (Cons index rest)
  show ?case
  proof (cases "getitem current index")
    case (Inl e)
    with Cons.prems show ?thesis by simp
  next
    case (Inr t0)
    with Cons.prems(1) have "has_subtasks t0"
      by (auto simp: all_have_subtasks_iff dest: getitem_in_set)
    then obtain s where s: "task_subtasks t0 = Some s" "all_have_subtasks s"
      by (auto simp: has_subtasks_iff)
    from s(2) Cons.prems(2) have "all_have_subtasks (put_parent_list s rest new)"
      by (rule Cons.IH)
    then have
      "has_subtasks (Task (task_text t0) (task_done t0) (Some (put_parent_list s rest new)))"
      by simp
    with Inr s Cons.prems show ?thesis
      by (simp add: all_have_subtasks_setitem)
  qed
qed

lemma all_have_subtasks_parent_list_loop:
  "all_have_subtasks current \<Longrightarrow> parent_list_loop current path = Inr (Some pl) \<Longrightarrow>
   all_have_subtasks pl"
proof (induction path arbitrary: current)
  case Nil
  then show ?case by simp
next
  case (Cons index rest)
  from Cons.prems(2) obtain t0 where t0: "getitem current index = Inr t0"
    by (cases "getitem current index") (auto split: if_splits)
  with Cons.prems(1) have "has_subtasks t0"
    by (auto simp: all_have_subtasks_iff dest: getitem_in_set)
  then obtain s where s: "task_subtasks t0 = Some s" "all_have_subtasks s"
    by (auto simp: has_subtasks_iff)
  with Cons.prems(2) t0 have "parent_list_loop s rest = Inr (Some pl)"
    by (simp add: subscript_subtasks_def)
  with s(2) show ?case by (rule Cons.IH)
qed

lemma all_have_subtasks_append:
  "all_have_subtasks (xs @ ys) \<longleftrightarrow> all_have_subtasks xs \<and> all_have_subtasks ys"
  by (auto simp: all_have_subtasks_iff)

subsection \<open>The rendering loop\<close>

lemma getitem_Cons_Suc: "getitem (x # xs) (int (Suc k)) = getitem xs (int k)"
proof -
  have "nat (1 + int k) = Suc k" by simp
  then show ?thesis by (simp add: getitem_def Let_def)
qed

lemma get_task_loop_Cons_Suc:
  "get_task_loop (x # xs) (int (Suc k) # q) = get_task_loop xs (int k # q)"
  by (simp only: get_task_loop.simps getitem_Cons_Suc)

lemma get_task_loop_Cons_0:
  "get_task_loop (x # xs) (0 # q) = (if q = [] then Inr (Some x) else get_task_loop (get_subtasks x) q)"
  by (simp add: getitem_def)

lemma display_resolves:
  "(node, p, d) \<in> set (display_task_recursive t path depth) \<Longrightarrow>
     \<exists>q. p = path @ q \<and> d = depth + length q
        \<and> (if q = [] then node = t else get_task_loop (get_subtasks t) q = Inr (Some node))"
  "(node, p, d) \<in> set (display_each ts i path depth) \<Longrightarrow>
     \<exists>k q. p = path @ (i + int k) # q \<and> d = depth + length q
        \<and> get_task_loop ts (int k # q) = Inr (Some node)"
proof (induction t path depth and ts i path depth
    arbitrary: node p d and node p d rule: display_task_recursive_display_each.induct)
  case (1 tx dn sub path depth)
  show ?case
  proof (cases "(node, p, d) = (Task tx dn sub, path, depth)")
    case True
    then show ?thesis by simp
  next
    case False
    with "1.prems" obtain s where s: "sub = Some s" "s \<noteq> []"
      and mem: "(node, p, d) \<in> set (display_each s 0 path (depth + 1))"
      by (auto split: option.splits if_splits)
    from "1.IH" [OF s mem] obtain k q where
      "p = path @ (0 + int k) # q" "d = depth + 1 + length q"
      "get_task_loop s (int k # q) = Inr (Some node)"
      by blast
    with s show ?thesis
      by (intro exI [of _ "int k # q"]) (simp add: get_subtasks_def)
  qed
next
  case (2 i path depth)
  then show ?case by simp
next
  case (3 subtask rest i path depth)
  from "3.prems" consider
      (head) "(node, p, d) \<in> set (display_task_recursive subtask (path @ [i]) depth)"
    | (tail) "(node, p, d) \<in> set (display_each rest (i + 1) path depth)"
    by auto
  then show ?case
  proof cases
    case head
    from "3.IH"(1) [OF head] obtain q where q: "p = (path @ [i]) @ q" "d = depth + length q"
      "if q = [] then node = subtask else get_task_loop (get_subtasks subtask) q = Inr (Some node)"
      by blast
    then have "get_task_loop (subtask # rest) (int 0 # q) = Inr (Some node)"
      by (simp del: get_task_loop.simps add: get_task_loop_Cons_0)
    with q(1,2) show ?thesis
      by (intro exI [of _ 0] exI [of _ q]) simp
  next
    case tail
    from "3.IH"(2) [OF tail] obtain k q where kq: "p = path @ (i + 1 + int k) # q"
      "d = depth + length q" "get_task_loop rest (int k # q) = Inr (Some node)"
      by blast
    from kq(3) have "get_task_loop (subtask # rest) (int (Suc k) # q) = Inr (Some node)"
      by (simp only: get_task_loop_Cons_Suc)
    with kq(1,2) show ?thesis
      by (intro exI [of _ "Suc k"] exI [of _ q]) simp
  qed
qed

subsection \<open>Reading back a replaced parent list\<close>

lemma get_task_from_path_eq_loop: "get_task_from_path tree path = get_task_loop tree path"
  by (simp add: get_task_from_path_def)

lemma get_parent_list_from_path_eq_loop:
  "path \<noteq> [] \<Longrightarrow> get_parent_list_from_path tree path = parent_list_loop tree (butlast path)"
  by (cases path) (auto simp: get_parent_list_from_path_def)

lemma parent_list_loop_SomeD:
  assumes "parent_list_loop current (index # rest) = Inr (Some siblings)"
  obtains t s where "getitem current index = Inr t" "task_subtasks t = Some s"
    "parent_list_loop s rest = Inr (Some siblings)"
proof -
  from assms obtain t where t: "getitem current index = Inr t"
    by (cases "getitem current index") (auto split: if_splits)
  with assms obtain s where s: "task_subtasks t = Some s"
    by (cases "task_subtasks t") (auto simp: subscript_subtasks_def)
  with assms t have "parent_list_loop s rest = Inr (Some siblings)"
    by (simp add: subscript_subtasks_def)
  with t s show thesis by (rule that)
qed

lemma parent_list_loop_put_parent_list:
  "parent_list_loop current path = Inr (Some siblings) \<Longrightarrow>
   parent_list_loop (put_parent_list current path new) path = Inr (Some new)"
proof (induction path arbitrary: current)
  case Nil
  then show ?case by simp
next
  case (Cons index rest)
  from Cons.prems obtain t s where ts: "getitem current index = Inr t" "task_subtasks t = Some s"
    "parent_list_loop s rest = Inr (Some siblings)"
    by (rule parent_list_loop_SomeD)
  from ts(3) have "parent_list_loop (put_parent_list s rest new) rest = Inr (Some new)"
    by (rule Cons.IH)
  with ts(1,2) show ?case
    by (simp add: getitem_setitem_same subscript_subtasks_def)
qed

lemma get_task_loop_below_parent_list:
  "parent_list_loop current path = Inr (Some siblings) \<Longrightarrow> r \<noteq> [] \<Longrightarrow>
   get_task_loop current (path @ r) = get_task_loop siblings r"
proof (induction path arbitrary: current)
  case Nil
  then show ?case by simp
next
  case (Cons index rest)
  from Cons.prems(1) obtain t s where ts: "getitem current index = Inr t"
    "task_subtasks t = Some s" "parent_list_loop s rest = Inr (Some siblings)"
    by (rule parent_list_loop_SomeD)
  from ts(3) Cons.prems(2) have "get_task_loop s (rest @ r) = get_task_loop siblings r"
    by (rule Cons.IH)
  with ts(1,2) Cons.prems(2) show ?case
    by (simp add: get_subtasks_def)
qed

lemma getitem_setitem_other:
  "0 \<le> i \<Longrightarrow> 0 \<le> j \<Longrightarrow> i \<noteq> j \<Longrightarrow> getitem (setitem xs j v) i = getitem xs i"
  by (auto simp: getitem_def setitem_def Let_def)

lemma get_task_loop_put_parent_list_diverging:
  "0 \<le> i \<Longrightarrow> 0 \<le> j \<Longrightarrow> i \<noteq> j \<Longrightarrow>
   get_task_loop (put_parent_list current (c @ j # r2) new) (c @ i # r1)
     = get_task_loop current (c @ i # r1)"
proof (induction c arbitrary: current)
  case Nil
  then show ?case
    by (auto simp: getitem_setitem_other split: sum.splits option.splits)
next
  case (Cons x c)
  show ?case
  proof (cases "getitem current x")
    case (Inl e)
    then show ?thesis by simp
  next
    case (Inr t)
    show ?thesis
    proof (cases "task_subtasks t")
      case None
      with Inr show ?thesis by simp
    next
      case (Some s)
      from Cons.prems
      have "get_task_loop (put_parent_list s (c @ j # r2) new) (c @ i # r1)
          = get_task_loop s (c @ i # r1)"
        by (rule Cons.IH)
      with Inr Some show ?thesis
        by (simp add: getitem_setitem_same get_subtasks_def)
    qed
  qed
qed

lemma get_task_loop_put_parent_list_ancestor:
  "get_task_loop current q = Inr (Some n) \<Longrightarrow>
   \<exists>n'. get_task_loop (put_parent_list current (q @ r) new) q = Inr (Some n')
       \<and> task_text n' = task_text n \<and> task_done n' = task_done n"
proof (induction q arbitrary: current)
  case Nil
  then show ?case by simp
next
  case (Cons x q)
  from Cons.prems obtain t where t: "getitem current x = Inr t"
    by (cases "getitem current x") (auto split: if_splits)
  show ?case
  proof (cases "task_subtasks t")
    case None
    with t Cons.prems show ?thesis by simp
  next
    case (Some s)
    show ?thesis
    proof (cases "q = []")
      case True
      with t Some Cons.prems show ?thesis
        by (simp add: getitem_setitem_same)
    next
      case False
      with Cons.prems t Some have "get_task_loop s q = Inr (Some n)"
        by (simp add: get_subtasks_def)
      from Cons.IH [OF this] obtain n' where
        "get_task_loop (put_parent_list s (q @ r) new) q = Inr (Some n')"
        "task_text n' = task_text n" "task_done n' = task_done n"
        by blast
      with t Some False show ?thesis
        by (simp add: getitem_setitem_same get_subtasks_def)
    qed
  qed
qed

lemma getitem_removed_before:
  "0 \<le> j \<Longrightarrow> j < k \<Longrightarrow> k < int (length xs) \<Longrightarrow>
   getitem (take (nat k) xs @ drop (Suc (nat k)) xs) j = getitem xs j"
  by (auto simp: getitem_def Let_def nth_append)

lemma nth_removed_after:
  "k < length xs \<Longrightarrow> k \<le> m \<Longrightarrow> (take k xs @ drop (Suc k) xs) ! m = xs ! Suc m"
  by (simp add: nth_append min_def)

lemma getitem_removed_after_nat:
  assumes "k < length xs" and "k \<le> m"
  shows "getitem (take k xs @ drop (Suc k) xs) (int m) = getitem xs (int (Suc m))"
proof -
  from assms have len: "length (take k xs @ drop (Suc k) xs) = length xs - 1" by simp
  have "nat (1 + int m) = Suc m" by simp
  with assms show ?thesis
    unfolding getitem_def Let_def len by (auto simp: nth_removed_after)
qed

lemma getitem_removed_after:
  assumes "0 \<le> k" and "k < j" and "k < int (length xs)"
  shows "getitem (take (nat k) xs @ drop (Suc (nat k)) xs) (j - 1) = getitem xs j"
proof -
  from assms have "nat k < length xs" and "nat k \<le> nat (j - 1)" by auto
  then have "getitem (take (nat k) xs @ drop (Suc (nat k)) xs) (int (nat (j - 1)))
      = getitem xs (int (Suc (nat (j - 1))))"
    by (rule getitem_removed_after_nat)
  moreover from assms have "int (nat (j - 1)) = j - 1" and "int (Suc (nat (j - 1))) = j"
    by auto
  ultimately show ?thesis by simp
qed

section \<open>The scenario of the specification\<close>

text \<open>
  C1. From the empty tree, adding "Buy milk" at the root gives the single task
  "Buy milk", not done, with no subtasks; adding "2%" under path [0] makes it the only
  subtask of that root; toggling path [0,0] marks the subtask done; deleting path [0]
  leaves the empty tree.
\<close>

theorem scenario_add_toggle_delete:
  "add_task_to_path [] ''Buy milk'' None = Inr [Task ''Buy milk'' (Some False) (Some [])]
   \<and> add_task_to_path [Task ''Buy milk'' (Some False) (Some [])] ''2%'' (Some [0])
       = Inr [Task ''Buy milk'' (Some False) (Some [Task ''2%'' (Some False) (Some [])])]
   \<and> toggle_task
         [Task ''Buy milk'' (Some False) (Some [Task ''2%'' (Some False) (Some [])])] [0, 0]
       = Inr [Task ''Buy milk'' (Some False) (Some [Task ''2%'' (Some True) (Some [])])]
   \<and> delete_task
         [Task ''Buy milk'' (Some False) (Some [Task ''2%'' (Some True) (Some [])])] [0] True
       = Inr []"
  by (simp add: add_task_to_path_def toggle_task_def delete_task_def get_task_from_path_def
        get_parent_list_from_path_def getitem_def setitem_def pop_def get_subtasks_def
        get_done_def subscript_subtasks_def strip_def isspace_def)

section \<open>Paths that do not resolve\<close>

text \<open>
  C10. The empty path never resolves: \<open>get_task_from_path\<close> returns \<open>None\<close> for it on
  every tree, and toggling, editing, deleting at the empty path, or adding below it,
  returns the tree as it was.
\<close>

theorem empty_path_is_noop:
  "get_task_from_path tree [] = Inr None
   \<and> toggle_task tree [] = Inr tree
   \<and> edit_task tree [] entered = Inr tree
   \<and> delete_task tree [] result = Inr tree
   \<and> add_task_to_path tree text (Some []) = Inr tree"
  by (simp add: get_task_from_path_def toggle_task_def edit_task_def delete_task_def
        add_task_to_path_def)

text \<open>
  C8. When a path does not resolve to a task, toggling, editing and deleting at it and
  adding a subtask below it raise nothing and return the tree unchanged. On a tree
  with a single root task, path [5] does not resolve and toggling it changes nothing.
\<close>

theorem unresolved_path_is_noop:
  "(get_task_from_path tree p = Inr None \<longrightarrow>
      toggle_task tree p = Inr tree
      \<and> edit_task tree p entered = Inr tree
      \<and> delete_task tree p result = Inr tree
      \<and> add_task_to_path tree text (Some p) = Inr tree)
   \<and> get_task_from_path [t] [5] = Inr None
   \<and> toggle_task [t] [5] = Inr [t]"
  by (simp add: toggle_task_def edit_task_def delete_task_def add_task_to_path_def
        get_task_from_path_def getitem_def)

theorem unresolved_path_is_noop_witness:
  "get_task_from_path [Task ''a'' (Some False) None] [0, 0] = Inr None
   \<and> toggle_task [Task ''a'' (Some False) None] [0, 0] = Inr [Task ''a'' (Some False) None]
   \<and> edit_task [Task ''a'' (Some False) None] [0, 0] ''b'' = Inr [Task ''a'' (Some False) None]
   \<and> delete_task [Task ''a'' (Some False) None] [0, 0] True
       = Inr [Task ''a'' (Some False) None]
   \<and> add_task_to_path [Task ''a'' (Some False) None] ''b'' (Some [0, 0])
       = Inr [Task ''a'' (Some False) None]"
proof -
  have h: "get_task_from_path [Task ''a'' (Some False) None] [0, 0] = Inr None"
    by (simp add: get_task_from_path_def getitem_def get_subtasks_def)
  show ?thesis
    using h unresolved_path_is_noop
      [of "[Task ''a'' (Some False) None]" "[0, 0]" "''b''" True "''b''"]
    by simp
qed

section \<open>Blank text\<close>

text \<open>
  C6. A text that strips to the empty string is rejected: adding it, at the root or
  below any path, and entering it in the edit dialog of any path, leave the tree
  unchanged.
\<close>

theorem blank_text_is_rejected:
  assumes "strip text = []"
  shows "add_task_to_path tree text parent = Inr tree \<and> edit_task tree p text = Inr tree"
proof -
  obtain r where "get_task_from_path tree p = Inr r"
    using get_task_from_path_returns by blast
  with assms show ?thesis
    by (simp add: add_task_to_path_def edit_task_def split: option.splits)
qed

theorem blank_text_is_rejected_witness:
  "strip ''  '' = []
   \<and> add_task_to_path [Task ''a'' (Some False) (Some [])] ''  '' (Some [0])
       = Inr [Task ''a'' (Some False) (Some [])]
   \<and> edit_task [Task ''a'' (Some False) (Some [])] [0] ''  ''
       = Inr [Task ''a'' (Some False) (Some [])]"
proof -
  have h: "strip ''  '' = []"
    by (simp add: strip_def isspace_def)
  show ?thesis
    using h blank_text_is_rejected
      [OF h, of "[Task ''a'' (Some False) (Some [])]" "Some [0]" "[0]"]
    by simp
qed

section \<open>Toggling\<close>

text \<open>
  C7. For a path that resolves to a task, one toggle flips the done flag the task is
  read with, and a second toggle at the same path gives the original flag back.
\<close>

theorem toggle_twice_restores_done:
  assumes "get_task_from_path tree p = Inr (Some t)"
  shows "\<exists>tree1 t1 tree2 t2.
           toggle_task tree p = Inr tree1
           \<and> get_task_from_path tree1 p = Inr (Some t1)
           \<and> get_done t1 = (\<not> get_done t)
           \<and> toggle_task tree1 p = Inr tree2
           \<and> get_task_from_path tree2 p = Inr (Some t2)
           \<and> get_done t2 = get_done t"
proof -
  define t1 where "t1 = Task (task_text t) (Some (\<not> get_done t)) (task_subtasks t)"
  define tree1 where "tree1 = put_task tree p t1"
  define t2 where "t2 = Task (task_text t1) (Some (\<not> get_done t1)) (task_subtasks t1)"
  define tree2 where "tree2 = put_task tree1 p t2"
  from assms have first: "toggle_task tree p = Inr tree1"
    by (simp add: toggle_task_def tree1_def t1_def)
  from assms have got1: "get_task_from_path tree1 p = Inr (Some t1)"
    unfolding tree1_def by (rule get_task_from_path_put_task)
  then have second: "toggle_task tree1 p = Inr tree2"
    by (simp add: toggle_task_def tree2_def t2_def)
  from got1 have got2: "get_task_from_path tree2 p = Inr (Some t2)"
    unfolding tree2_def by (rule get_task_from_path_put_task)
  have "get_done t1 = (\<not> get_done t)" by (simp add: t1_def get_done_def)
  moreover have "get_done t2 = get_done t" by (simp add: t2_def t1_def get_done_def)
  ultimately show ?thesis using first got1 second got2 by blast
qed

theorem toggle_twice_restores_done_witness:
  "get_task_from_path [Task ''a'' None (Some [Task ''b'' (Some True) None])] [0, 0]
     = Inr (Some (Task ''b'' (Some True) None))
   \<and> (\<exists>tree1 t1 tree2 t2.
         toggle_task [Task ''a'' None (Some [Task ''b'' (Some True) None])] [0, 0] = Inr tree1
         \<and> get_task_from_path tree1 [0, 0] = Inr (Some t1)
         \<and> get_done t1 = (\<not> get_done (Task ''b'' (Some True) None))
         \<and> toggle_task tree1 [0, 0] = Inr tree2
         \<and> get_task_from_path tree2 [0, 0] = Inr (Some t2)
         \<and> get_done t2 = get_done (Task ''b'' (Some True) None))"
proof -
  have h: "get_task_from_path [Task ''a'' None (Some [Task ''b'' (Some True) None])] [0, 0]
     = Inr (Some (Task ''b'' (Some True) None))"
    by (simp add: get_task_from_path_def getitem_def get_subtasks_def)
  show ?thesis using h toggle_twice_restores_done [OF h] by simp
qed

section \<open>Negative indices\<close>

text \<open>
  C9. Resolution accepts a negative final index: when the sibling list of a path ending
  in -1 is not empty, the path resolves to the last sibling, so toggling path [-1]
  toggles the last root task. Deletion checks \<open>0 \<le> index < length\<close> itself and does
  nothing for a path whose final index is negative.
\<close>

theorem negative_final_index:
  "(get_parent_list_from_path tree (q @ [- 1]) = Inr (Some siblings) \<and> siblings \<noteq> [] \<longrightarrow>
      get_task_from_path tree (q @ [- 1]) = Inr (Some (last siblings)))
   \<and> (tree \<noteq> [] \<longrightarrow>
        toggle_task tree [- 1] =
          Inr (butlast tree @
               [Task (task_text (last tree)) (Some (\<not> get_done (last tree)))
                  (task_subtasks (last tree))]))
   \<and> (p \<noteq> [] \<and> last p < 0 \<longrightarrow> delete_task tree p result = Inr tree)"
proof (intro conjI impI)
  assume "get_parent_list_from_path tree (q @ [- 1]) = Inr (Some siblings) \<and> siblings \<noteq> []"
  then show "get_task_from_path tree (q @ [- 1]) = Inr (Some (last siblings))"
    using get_task_via_parent_list [of "q @ [- 1]" tree] by (simp add: getitem_last)
next
  assume "tree \<noteq> []"
  then show "toggle_task tree [- 1] =
      Inr (butlast tree @
           [Task (task_text (last tree)) (Some (\<not> get_done (last tree)))
              (task_subtasks (last tree))])"
    by (simp add: toggle_task_def get_task_from_path_def getitem_last setitem_last)
next
  assume neg: "p \<noteq> [] \<and> last p < 0"
  obtain r where r: "get_task_from_path tree p = Inr r"
    using get_task_from_path_returns by blast
  obtain pl where pl: "get_parent_list_from_path tree p = Inr pl"
    using get_parent_list_from_path_returns by blast
  from neg have "getitem p (- 1) = Inr (last p)" by (simp add: getitem_last)
  with r pl neg show "delete_task tree p result = Inr tree"
    by (simp add: delete_task_def split: option.splits)
qed

theorem negative_final_index_witness:
  "get_parent_list_from_path [Task ''a'' None None, Task ''b'' None None] ([] @ [- 1])
     = Inr (Some [Task ''a'' None None, Task ''b'' None None])
   \<and> get_task_from_path [Task ''a'' None None, Task ''b'' None None] ([] @ [- 1])
       = Inr (Some (Task ''b'' None None))
   \<and> toggle_task [Task ''a'' None None, Task ''b'' None None] [- 1]
       = Inr [Task ''a'' None None, Task ''b'' (Some True) None]
   \<and> last [- 1 :: int] < 0
   \<and> delete_task [Task ''a'' None None, Task ''b'' None None] [- 1] True
       = Inr [Task ''a'' None None, Task ''b'' None None]"
proof -
  have h: "get_parent_list_from_path [Task ''a'' None None, Task ''b'' None None] ([] @ [- 1])
     = Inr (Some [Task ''a'' None None, Task ''b'' None None])"
    by (simp add: get_parent_list_from_path_def)
  show ?thesis
    using h negative_final_index
      [of "[Task ''a'' None None, Task ''b'' None None]" "[]"
          "[Task ''a'' None None, Task ''b'' None None]" "[- 1]" True]
    by (simp add: get_done_def)
qed

section \<open>Loading\<close>




section \<open>Rendering and addressing agree\<close>

text \<open>
  C2. Every widget the rendering pass builds carries a task, a path and a depth; the
  path resolves, by \<open>get_task_from_path\<close> on the same tree, to exactly that task, and
  it is one longer than the depth (roots at depth 0 with a path of one index, each
  subtask one deeper with the parent's path extended by its index).
\<close>

theorem rendered_path_resolves_to_rendered_task:
  assumes "(node, p, depth) \<in> set (refresh_display tree)"
  shows "get_task_from_path tree p = Inr (Some node) \<and> length p = Suc depth"
proof -
  from assms have "(node, p, depth) \<in> set (display_each tree 0 [] 0)"
    by (simp add: refresh_display_def split: if_splits)
  from display_resolves(2) [OF this] obtain k q where
    "p = int k # q" "depth = length q" "get_task_loop tree (int k # q) = Inr (Some node)"
    by auto
  then show ?thesis by (simp add: get_task_from_path_def)
qed

theorem rendered_path_resolves_to_rendered_task_witness:
  "(Task ''b'' (Some True) None, [0, 1], 1)
     \<in> set (refresh_display
          [Task ''a'' None (Some [Task ''c'' None (Some []), Task ''b'' (Some True) None])])
   \<and> get_task_from_path
        [Task ''a'' None (Some [Task ''c'' None (Some []), Task ''b'' (Some True) None])] [0, 1]
       = Inr (Some (Task ''b'' (Some True) None))
   \<and> length [0 :: int, 1] = Suc 1"
proof -
  have h: "(Task ''b'' (Some True) None, [0, 1], 1)
     \<in> set (refresh_display
          [Task ''a'' None (Some [Task ''c'' None (Some []), Task ''b'' (Some True) None])])"
    by (simp add: refresh_display_def)
  show ?thesis
    using h rendered_path_resolves_to_rendered_task [OF h] by blast
qed

section \<open>The key \<open>'subtasks'\<close>\<close>

text \<open>
  C4, as claimed, fails for \<open>load_tasks\<close>: it hands on what the file holds, and a
  stored task without the key \<open>'subtasks'\<close> comes back without it.
\<close>

theorem load_tasks_task_without_subtasks:
  "load_tasks \<lparr>path_exists = True, open_raises = None, getsize = 32,
      json_load = Inr [Task ''a'' (Some False) None]\<rparr> = Inr [Task ''a'' (Some False) None]
   \<and> \<not> all_have_subtasks [Task ''a'' (Some False) None]"
  by (simp add: load_tasks_def)

text \<open>
  C4, amended. The tree \<open>load_tasks\<close> returns has the key \<open>'subtasks'\<close> on every task
  provided the stored tasks have it (the empty tree it returns otherwise has no tasks).
  When every task of a tree has the key, adding, toggling, editing and deleting each
  return a tree in which every task has it again.
\<close>

theorem subtasks_key_invariant:
  "(load_tasks store = Inr loaded
      \<and> (\<forall>stored. json_load store = Inr stored \<longrightarrow> all_have_subtasks stored)
    \<longrightarrow> all_have_subtasks loaded)
   \<and> (all_have_subtasks tree \<longrightarrow>
        (\<exists>tree'. add_task_to_path tree text parent = Inr tree' \<and> all_have_subtasks tree')
        \<and> (\<exists>tree'. toggle_task tree p = Inr tree' \<and> all_have_subtasks tree')
        \<and> (\<exists>tree'. edit_task tree p entered = Inr tree' \<and> all_have_subtasks tree')
        \<and> (\<exists>tree'. delete_task tree p result = Inr tree' \<and> all_have_subtasks tree'))"
proof (intro conjI impI)
  assume "load_tasks store = Inr loaded
      \<and> (\<forall>stored. json_load store = Inr stored \<longrightarrow> all_have_subtasks stored)"
  then show "all_have_subtasks loaded"
    by (auto simp: load_tasks_def split: if_splits option.splits sum.splits)
next
  assume inv: "all_have_subtasks tree"
  obtain r where r: "get_task_from_path tree p = Inr r"
    using get_task_from_path_returns by blast
  have found: "has_subtasks t" if "get_task_from_path tree q = Inr (Some t)" for q t
    using that inv by (auto simp: get_task_from_path_def split: if_splits
        dest: has_subtasks_get_task_loop)
  show "\<exists>tree'. add_task_to_path tree text parent = Inr tree' \<and> all_have_subtasks tree'"
  proof (cases parent)
    case None
    with inv show ?thesis
      by (simp add: add_task_to_path_def all_have_subtasks_append)
  next
    case (Some q)
    obtain rq where rq: "get_task_from_path tree q = Inr rq"
      using get_task_from_path_returns by blast
    show ?thesis
    proof (cases rq)
      case None
      with Some rq inv show ?thesis by (simp add: add_task_to_path_def)
    next
      case (Some t)
      with rq have "has_subtasks t" by (simp add: found)
      then have "has_subtasks (Task (task_text t) (task_done t)
          (Some (get_subtasks t @ [Task (strip text) (Some False) (Some [])])))"
        by (auto simp: has_subtasks_iff get_subtasks_def all_have_subtasks_append)
      with inv have "all_have_subtasks (put_task tree q (Task (task_text t) (task_done t)
          (Some (get_subtasks t @ [Task (strip text) (Some False) (Some [])]))))"
        by (rule all_have_subtasks_put_task)
      with \<open>parent = Some q\<close> rq Some inv show ?thesis
        by (simp add: add_task_to_path_def)
    qed
  qed
  show "\<exists>tree'. toggle_task tree p = Inr tree' \<and> all_have_subtasks tree'"
  proof (cases r)
    case None
    with r inv show ?thesis by (simp add: toggle_task_def)
  next
    case (Some t)
    with r have "has_subtasks t" by (simp add: found)
    then have "has_subtasks (Task (task_text t) (Some (\<not> get_done t)) (task_subtasks t))"
      by (auto simp: has_subtasks_iff)
    with inv have "all_have_subtasks
        (put_task tree p (Task (task_text t) (Some (\<not> get_done t)) (task_subtasks t)))"
      by (rule all_have_subtasks_put_task)
    with r Some show ?thesis by (simp add: toggle_task_def)
  qed
  show "\<exists>tree'. edit_task tree p entered = Inr tree' \<and> all_have_subtasks tree'"
  proof (cases r)
    case None
    with r inv show ?thesis by (simp add: edit_task_def)
  next
    case (Some t)
    with r have "has_subtasks t" by (simp add: found)
    then have "has_subtasks (Task (strip entered) (task_done t) (task_subtasks t))"
      by (auto simp: has_subtasks_iff)
    with inv have "all_have_subtasks
        (put_task tree p (Task (strip entered) (task_done t) (task_subtasks t)))"
      by (rule all_have_subtasks_put_task)
    with r Some inv show ?thesis by (simp add: edit_task_def Let_def)
  qed
  show "\<exists>tree'. delete_task tree p result = Inr tree' \<and> all_have_subtasks tree'"
  proof (cases r)
    case None
    with r inv show ?thesis by (simp add: delete_task_def)
  next
    case (Some t)
    with r have ne: "p \<noteq> []" by (auto simp: get_task_from_path_def)
    then have idx: "getitem p (- 1) = Inr (last p)" by (rule getitem_last)
    obtain pl where pl: "get_parent_list_from_path tree p = Inr pl"
      using get_parent_list_from_path_returns by blast
    show ?thesis
    proof (cases pl)
      case None
      with r Some pl idx inv show ?thesis by (simp add: delete_task_def)
    next
      case (Some siblings)
      with pl inv ne have sib: "all_have_subtasks siblings"
        by (auto simp: get_parent_list_from_path_def split: if_splits
            dest: all_have_subtasks_parent_list_loop)
      show ?thesis
      proof (cases "result \<and> 0 \<le> last p \<and> last p < int (length siblings)")
        case False
        with r \<open>r = Some t\<close> pl Some idx inv show ?thesis
          by (auto simp: delete_task_def)
      next
        case True
        then obtain rest where rest: "pop siblings (last p) = Inr rest"
          by (auto simp: pop_def Let_def)
        with sib have "all_have_subtasks rest" by (rule all_have_subtasks_pop)
        with inv have "all_have_subtasks (put_parent_list tree (butlast p) rest)"
          by (rule all_have_subtasks_put_parent_list)
        with r \<open>r = Some t\<close> pl Some idx True rest show ?thesis
          by (simp add: delete_task_def)
      qed
    qed
  qed
qed

theorem subtasks_key_invariant_witness:
  "load_tasks \<lparr>path_exists = True, open_raises = None, getsize = 48,
       json_load = Inr [Task ''a'' (Some False) (Some [])]\<rparr>
     = Inr [Task ''a'' (Some False) (Some [])]
   \<and> all_have_subtasks [Task ''a'' (Some False) (Some [])]
   \<and> (\<exists>tree'. add_task_to_path [Task ''a'' (Some False) (Some [])] ''b'' (Some [0]) = Inr tree'
          \<and> all_have_subtasks tree')
   \<and> (\<exists>tree'. toggle_task [Task ''a'' (Some False) (Some [])] [0] = Inr tree'
          \<and> all_have_subtasks tree')
   \<and> (\<exists>tree'. edit_task [Task ''a'' (Some False) (Some [])] [0] ''c'' = Inr tree'
          \<and> all_have_subtasks tree')
   \<and> (\<exists>tree'. delete_task [Task ''a'' (Some False) (Some [])] [0] True = Inr tree'
          \<and> all_have_subtasks tree')"
proof -
  have h1: "load_tasks \<lparr>path_exists = True, open_raises = None, getsize = 48,
       json_load = Inr [Task ''a'' (Some False) (Some [])]\<rparr>
     = Inr [Task ''a'' (Some False) (Some [])]
     \<and> (\<forall>stored. json_load \<lparr>path_exists = True, open_raises = None, getsize = 48,
            json_load = Inr [Task ''a'' (Some False) (Some [])]\<rparr> = Inr stored
          \<longrightarrow> all_have_subtasks stored)"
    by (simp add: load_tasks_def)
  have h2: "all_have_subtasks [Task ''a'' (Some False) (Some [])]"
    by simp
  show ?thesis
    using h1 h2 subtasks_key_invariant
      [of "\<lparr>path_exists = True, open_raises = None, getsize = 48,
             json_load = Inr [Task ''a'' (Some False) (Some [])]\<rparr>"
          "[Task ''a'' (Some False) (Some [])]" "[Task ''a'' (Some False) (Some [])]"
          "''b''" "Some [0]" "[0]" "''c''" True]
    by blast
qed

section \<open>Deleting\<close>

text \<open>
  C5. Let a path with a non-negative final index resolve to a task, and let the
  deletion be confirmed. Then the list that holds the task loses exactly the element
  at the final index: what \<open>get_parent_list_from_path\<close> returns afterwards is the
  former list without it, one shorter. Every other task is as before: a path through
  an earlier sibling resolves as it did; a path through a later sibling resolves as it
  did once its index at that level is lowered by one; a path that leaves the deleted
  path's ancestors at a different index resolves as it did; and every ancestor of the
  deleted task keeps its text and its done flag.
\<close>

theorem delete_removes_exactly_the_subtree:
  assumes "get_task_from_path tree p = Inr (Some node)" and "0 \<le> last p"
  shows "\<exists>siblings tree'.
      get_parent_list_from_path tree p = Inr (Some siblings)
    \<and> nat (last p) < length siblings
    \<and> siblings ! nat (last p) = node
    \<and> delete_task tree p True = Inr tree'
    \<and> get_parent_list_from_path tree' p
        = Inr (Some (take (nat (last p)) siblings @ drop (Suc (nat (last p))) siblings))
    \<and> (\<forall>j r. 0 \<le> j \<and> j < last p \<longrightarrow>
          get_task_from_path tree' (butlast p @ j # r)
            = get_task_from_path tree (butlast p @ j # r))
    \<and> (\<forall>j r. last p < j \<longrightarrow>
          get_task_from_path tree' (butlast p @ (j - 1) # r)
            = get_task_from_path tree (butlast p @ j # r))
    \<and> (\<forall>c i j r1 r2. butlast p = c @ j # r2 \<and> 0 \<le> i \<and> 0 \<le> j \<and> i \<noteq> j \<longrightarrow>
          get_task_from_path tree' (c @ i # r1) = get_task_from_path tree (c @ i # r1))
    \<and> (\<forall>q r n. butlast p = q @ r \<and> get_task_from_path tree q = Inr (Some n) \<longrightarrow>
          (\<exists>n'. get_task_from_path tree' q = Inr (Some n')
              \<and> task_text n' = task_text n \<and> task_done n' = task_done n))"
proof -
  let ?a = "butlast p" and ?k = "last p"
  from assms(1) have ne: "p \<noteq> []" by (auto simp: get_task_from_path_def)
  obtain pl where pl: "get_parent_list_from_path tree p = Inr pl"
    using get_parent_list_from_path_returns by blast
  with assms(1) get_task_via_parent_list [OF ne, of tree]
  obtain siblings where sib: "pl = Some siblings" and item: "getitem siblings ?k = Inr node"
    by (auto split: option.splits sum.splits)
  from item assms(2) have k: "?k < int (length siblings)" "siblings ! nat ?k = node"
    by (auto simp: getitem_def Let_def split: if_splits)
  define remaining where "remaining = take (nat ?k) siblings @ drop (Suc (nat ?k)) siblings"
  define tree' where "tree' = put_parent_list tree ?a remaining"
  from assms(2) k(1) have popped: "pop siblings ?k = Inr remaining"
    by (simp add: pop_def remaining_def Let_def)
  from ne have idx: "getitem p (- 1) = Inr ?k" by (rule getitem_last)
  from assms(1,2) pl sib idx k(1) popped have deleted: "delete_task tree p True = Inr tree'"
    by (simp add: delete_task_def tree'_def)
  from pl sib ne have loop: "parent_list_loop tree ?a = Inr (Some siblings)"
    by (simp add: get_parent_list_from_path_eq_loop)
  then have loop': "parent_list_loop tree' ?a = Inr (Some remaining)"
    unfolding tree'_def by (rule parent_list_loop_put_parent_list)
  with ne have parent': "get_parent_list_from_path tree' p = Inr (Some remaining)"
    by (simp add: get_parent_list_from_path_eq_loop)
  have below: "get_task_from_path tree (?a @ j # r) = get_task_loop siblings (j # r)" for j r
    using get_task_loop_below_parent_list [OF loop, of "j # r"]
    by (simp add: get_task_from_path_eq_loop)
  have below': "get_task_from_path tree' (?a @ j # r) = get_task_loop remaining (j # r)" for j r
    using get_task_loop_below_parent_list [OF loop', of "j # r"]
    by (simp add: get_task_from_path_eq_loop)
  have before: "get_task_from_path tree' (?a @ j # r) = get_task_from_path tree (?a @ j # r)"
    if "0 \<le> j \<and> j < ?k" for j r
    using that k(1) unfolding below below' remaining_def
    by (simp add: getitem_removed_before)
  have after: "get_task_from_path tree' (?a @ (j - 1) # r) = get_task_from_path tree (?a @ j # r)"
    if "?k < j" for j r
    using that k(1) assms(2) unfolding below below' remaining_def
    by (simp add: getitem_removed_after)
  have diverging: "get_task_from_path tree' (c @ i # r1) = get_task_from_path tree (c @ i # r1)"
    if "?a = c @ j # r2 \<and> 0 \<le> i \<and> 0 \<le> j \<and> i \<noteq> j" for c i j r1 r2
    using that get_task_loop_put_parent_list_diverging [of i j tree c r2 remaining r1]
    by (simp add: get_task_from_path_eq_loop tree'_def)
  have ancestor: "\<exists>n'. get_task_from_path tree' q = Inr (Some n')
              \<and> task_text n' = task_text n \<and> task_done n' = task_done n"
    if "?a = q @ r \<and> get_task_from_path tree q = Inr (Some n)" for q r n
    using that get_task_loop_put_parent_list_ancestor [of tree q n r remaining]
    by (simp add: get_task_from_path_eq_loop tree'_def)
  show ?thesis
  proof (rule exI [of _ siblings], rule exI [of _ tree'], intro conjI)
    show "get_parent_list_from_path tree p = Inr (Some siblings)"
      using pl sib by simp
    show "nat (last p) < length siblings"
      using k(1) assms(2) by simp
    show "siblings ! nat (last p) = node"
      by (rule k(2))
    show "delete_task tree p True = Inr tree'"
      by (rule deleted)
    show "get_parent_list_from_path tree' p
        = Inr (Some (take (nat (last p)) siblings @ drop (Suc (nat (last p))) siblings))"
      using parent' by (simp only: remaining_def)
    show "\<forall>j r. 0 \<le> j \<and> j < last p \<longrightarrow>
          get_task_from_path tree' (butlast p @ j # r)
            = get_task_from_path tree (butlast p @ j # r)"
      using before by blast
    show "\<forall>j r. last p < j \<longrightarrow>
          get_task_from_path tree' (butlast p @ (j - 1) # r)
            = get_task_from_path tree (butlast p @ j # r)"
      using after by blast
    show "\<forall>c i j r1 r2. butlast p = c @ j # r2 \<and> 0 \<le> i \<and> 0 \<le> j \<and> i \<noteq> j \<longrightarrow>
          get_task_from_path tree' (c @ i # r1) = get_task_from_path tree (c @ i # r1)"
      using diverging by blast
    show "\<forall>q r n. butlast p = q @ r \<and> get_task_from_path tree q = Inr (Some n) \<longrightarrow>
          (\<exists>n'. get_task_from_path tree' q = Inr (Some n')
              \<and> task_text n' = task_text n \<and> task_done n' = task_done n)"
      using ancestor by blast
  qed
qed

theorem delete_removes_exactly_the_subtree_witness:
  "get_task_from_path
      [Task ''a'' None (Some [Task ''b'' None None, Task ''c'' (Some True) (Some [])])] [0, 0]
     = Inr (Some (Task ''b'' None None))
   \<and> 0 \<le> last [0 :: int, 0]
   \<and> (\<exists>siblings tree'.
        get_parent_list_from_path
            [Task ''a'' None (Some [Task ''b'' None None, Task ''c'' (Some True) (Some [])])]
            [0, 0]
          = Inr (Some siblings)
        \<and> siblings ! nat (last [0, 0]) = Task ''b'' None None
        \<and> delete_task
            [Task ''a'' None (Some [Task ''b'' None None, Task ''c'' (Some True) (Some [])])]
            [0, 0] True
          = Inr tree'
        \<and> get_parent_list_from_path tree' [0, 0]
          = Inr (Some (take (nat (last [0, 0])) siblings
                       @ drop (Suc (nat (last [0, 0]))) siblings)))"
proof -
  have h1: "get_task_from_path
      [Task ''a'' None (Some [Task ''b'' None None, Task ''c'' (Some True) (Some [])])] [0, 0]
     = Inr (Some (Task ''b'' None None))"
    by (simp add: get_task_from_path_def getitem_def get_subtasks_def)
  have h2: "0 \<le> last [0 :: int, 0]"
    by simp
  show ?thesis
    using h1 h2 delete_removes_exactly_the_subtree [OF h1 h2] by blast
qed

end
